theory Spec2Isabelle
  imports Complex_Main
begin

section \<open>The path transform of \<open>runRule\<close>\<close>

text \<open>
  \<open>src/index.ts\<close>, lines 468 to 473, build the flat file name of a source path:
  \<^verbatim>\<open>
  sourceFile.replaceAll("_", "__").split(pathSeparator).filter(Boolean)
    .filter((component) => !["node_modules", "."].includes(component)).join("_")
  \<close>
  A path is a \<open>string\<close>; \<open>pathSeparator\<close> is \<open>sep\<close> of \<open>node:path\<close>, one character
  (\<open>/\<close> on POSIX, \<open>\\<close> on Windows), and is a parameter of every definition below.
  The special characters are all ASCII, so the byte view of a path is split and joined
  exactly where the UTF-16 view of JavaScript is.
\<close>

definition replaceAll_underscore :: "string \<Rightarrow> string" where
  "replaceAll_underscore s = concat (map (\<lambda>ch. if ch = CHR ''_'' then ''__'' else [ch]) s)"

text \<open>
  \<open>String.prototype.split\<close> with a one-character separator: \<open>cur\<close> is the component
  being read. A string with \<open>n\<close> separators has \<open>n + 1\<close> components, some of them
  possibly empty; the empty string has the single component \<open>""\<close>.
\<close>

fun split_from :: "char \<Rightarrow> string \<Rightarrow> string \<Rightarrow> string list" where
  "split_from sep cur [] = [cur]"
| "split_from sep cur (ch # s) =
     (if ch = sep then cur # split_from sep [] s else split_from sep (cur @ [ch]) s)"

definition split :: "char \<Rightarrow> string \<Rightarrow> string list" where
  "split sep s = split_from sep [] s"

text \<open>\<open>Array.prototype.join\<close>.\<close>

fun join_with :: "string \<Rightarrow> string list \<Rightarrow> string" where
  "join_with j [] = []"
| "join_with j [c] = c"
| "join_with j (c # cs) = c @ j @ join_with j cs"

text \<open>The components that are joined: what the two \<open>filter\<close> calls leave.\<close>

definition components :: "char \<Rightarrow> string \<Rightarrow> string list" where
  "components sep sourceFile =
     filter (\<lambda>component. component \<notin> set [''node_modules'', ''.''])
       (filter (\<lambda>component. component \<noteq> [])
         (split sep (replaceAll_underscore sourceFile)))"

definition flattenedFileName :: "char \<Rightarrow> string \<Rightarrow> string" where
  "flattenedFileName sep sourceFile = join_with ''_'' (components sep sourceFile)"

text \<open>The path components of a source path as the file system has them: no escaping.\<close>

definition pathComponents :: "char \<Rightarrow> string \<Rightarrow> string list" where
  "pathComponents sep sourceFile = filter (\<lambda>component. component \<noteq> []) (split sep sourceFile)"

text \<open>
  A reader of flat names, for the injectivity result below: two underscores belong to
  a component, one underscore alone ends it. \<open>plainStart\<close> holds of a path component
  that is not empty and does not begin with an underscore.
\<close>

fun unjoin_from :: "string \<Rightarrow> string \<Rightarrow> string list" where
  "unjoin_from cur [] = [cur]"
| "unjoin_from cur [a] = (if a = CHR ''_'' then [cur, []] else [cur @ [a]])"
| "unjoin_from cur (a # b # s) =
     (if a = CHR ''_'' then
        (if b = CHR ''_'' then unjoin_from (cur @ ''__'') s else cur # unjoin_from [] (b # s))
      else unjoin_from (cur @ [a]) (b # s))"

definition unjoin :: "string \<Rightarrow> string list" where
  "unjoin name = (if name = [] then [] else unjoin_from [] name)"

definition plainStart :: "string \<Rightarrow> bool" where
  "plainStart x = (x \<noteq> [] \<and> hd x \<noteq> CHR ''_'')"

section \<open>JavaScript numbers\<close>

text \<open>
  A JavaScript number is an IEEE-754 double; the values that arise here are the
  non-negative doubles, \<open>Infinity\<close> and \<open>NaN\<close>. A finite double is modelled by the
  real number it denotes.
\<close>

datatype number = Finite real | PlusInfinity | NaN

section \<open>The rule engine: \<open>runRule\<close> and the run\<close>

text \<open>
  The host environment is what \<open>index.ts\<close> imports: \<open>sep\<close> and \<open>join\<close> of
  \<open>node:path\<close>, \<open>globSync\<close>, \<open>minimatch\<close>, and \<open>statSync\<close> and \<open>copyFileSync\<close>
  of \<open>node:fs\<close>. \<open>statSync\<close> gives the size of a file or throws (\<open>None\<close>);
  \<open>copyFileSync\<close> succeeds (\<open>True\<close>) or throws. The default target directory is a
  sibling of the working directory, so a run does not write into the tree it reads
  and the answers of the host are the same throughout one run.
\<close>

record host =
  pathSeparator :: char
  join :: "string \<Rightarrow> string \<Rightarrow> string"
  globSync :: "string \<Rightarrow> bool \<Rightarrow> string list"
  minimatch :: "string \<Rightarrow> string \<Rightarrow> bool"
  statSync :: "string \<Rightarrow> nat option"
  copyFileSync :: "string \<Rightarrow> string \<Rightarrow> bool"

text \<open>
  The command-line settings that \<open>runRule\<close> reads. \<open>maxFileSize\<close> is \<open>number | null\<close>:
  \<open>None\<close> is \<open>null\<close>, and a number is what \<open>parseFileSize\<close> returned. \<open>verbose\<close> only
  adds console lines and is left out.
\<close>

record options =
  targetPath :: string
  followSymlinks :: bool
  dryRun :: bool
  maxFileSize :: "number option"

text \<open>
  The branch of the loop body that a file leaves through: the \<open>continue\<close> of the size
  check, the \<open>continue\<close> of the duplicate check, the dry-run branch, the copy, and the
  \<open>catch\<close> block.
\<close>

datatype outcome = Copied | WouldCopy | SkippedSize | SkippedDuplicate | Error

text \<open>
  The module-level accumulators of lines 74 to 77, and two records of what happened:
  \<open>written\<close> lists the copies that \<open>copyFileSync\<close> made (source, destination), and
  \<open>outcomes\<close> lists every file that entered the loop body with the branch it took.
\<close>

record run_state =
  copiedFiles :: "string list"
  skippedFiles :: "string list"
  errorFiles :: "string list"
  totalBytes :: nat
  written :: "(string \<times> string) list"
  outcomes :: "(string \<times> outcome) list"

definition initial_state :: run_state where
  "initial_state = \<lparr>copiedFiles = [], skippedFiles = [], errorFiles = [], totalBytes = 0,
     written = [], outcomes = []\<rparr>"

text \<open>
  Line 454, \<open>maxFileSize && fileSize > maxFileSize\<close>: \<open>null\<close>, \<open>0\<close> and \<open>NaN\<close> are
  falsy, and no size is greater than \<open>Infinity\<close>.
\<close>

definition exceedsLimit :: "number option \<Rightarrow> nat \<Rightarrow> bool" where
  "exceedsLimit limit fileSize =
     (case limit of
        None \<Rightarrow> False
      | Some (Finite m) \<Rightarrow> m \<noteq> 0 \<and> real fileSize > m
      | Some PlusInfinity \<Rightarrow> False
      | Some NaN \<Rightarrow> False)"

definition targetFilePath :: "host \<Rightarrow> options \<Rightarrow> string \<Rightarrow> string" where
  "targetFilePath h c sourceFile =
     join h (targetPath c) (flattenedFileName (pathSeparator h) sourceFile)"

text \<open>
  The body of the loop of lines 447 to 507, on the counter \<open>successfulCopies\<close> and the
  accumulators. The two calls that can throw are \<open>statSync\<close> and \<open>copyFileSync\<close>; the
  \<open>catch\<close> block records the file in \<open>errorFiles\<close> and the loop goes on.
\<close>

definition processFile :: "host \<Rightarrow> options \<Rightarrow> string \<Rightarrow> nat \<times> run_state \<Rightarrow> nat \<times> run_state" where
  "processFile h c sourceFile acc =
     (let successfulCopies = fst acc; s = snd acc in
      case statSync h sourceFile of
        None \<Rightarrow>
          (successfulCopies,
           s\<lparr>errorFiles := errorFiles s @ [sourceFile],
             outcomes := outcomes s @ [(sourceFile, Error)]\<rparr>)
      | Some fileSize \<Rightarrow>
          if exceedsLimit (maxFileSize c) fileSize then
            (successfulCopies,
             s\<lparr>skippedFiles := skippedFiles s @ [sourceFile],
               outcomes := outcomes s @ [(sourceFile, SkippedSize)]\<rparr>)
          else if targetFilePath h c sourceFile \<in> set (copiedFiles s) then
            (successfulCopies,
             s\<lparr>skippedFiles := skippedFiles s @ [sourceFile],
               outcomes := outcomes s @ [(sourceFile, SkippedDuplicate)]\<rparr>)
          else if dryRun c then
            (successfulCopies + 1,
             s\<lparr>totalBytes := totalBytes s + fileSize,
               outcomes := outcomes s @ [(sourceFile, WouldCopy)]\<rparr>)
          else if copyFileSync h sourceFile (targetFilePath h c sourceFile) then
            (successfulCopies + 1,
             s\<lparr>copiedFiles := copiedFiles s @ [targetFilePath h c sourceFile],
               totalBytes := totalBytes s + fileSize,
               written := written s @ [(sourceFile, targetFilePath h c sourceFile)],
               outcomes := outcomes s @ [(sourceFile, Copied)]\<rparr>)
          else
            (successfulCopies,
             s\<lparr>errorFiles := errorFiles s @ [sourceFile],
               outcomes := outcomes s @ [(sourceFile, Error)]\<rparr>))"

text \<open>Lines 428 to 437: one \<open>filter\<close> per exclusion rule, in the order of the rules.\<close>

definition applyDenyRules :: "host \<Rightarrow> string list \<Rightarrow> string list \<Rightarrow> string list" where
  "applyDenyRules h denyRules matchingFiles =
     (if denyRules \<noteq> [] then
        foldl (\<lambda>files denyRule. filter (\<lambda>file. \<not> minimatch h file denyRule) files)
          matchingFiles denyRules
      else matchingFiles)"

text \<open>The files of one inclusion rule that reach the loop.\<close>

definition ruleFiles :: "host \<Rightarrow> options \<Rightarrow> string list \<Rightarrow> string \<Rightarrow> string list" where
  "ruleFiles h c denyRules pattern =
     applyDenyRules h denyRules (globSync h pattern (followSymlinks c))"

definition runRule :: "host \<Rightarrow> options \<Rightarrow> string \<Rightarrow> string list \<Rightarrow> run_state \<Rightarrow> nat \<times> run_state" where
  "runRule h c pattern denyRules s =
     (let matchingFiles = ruleFiles h c denyRules pattern in
      if matchingFiles = [] then (0, s)
      else foldl (\<lambda>acc sourceFile. processFile h c sourceFile acc) (0, s) matchingFiles)"

text \<open>
  Lines 384 to 386: \<open>copyRules.reduce((acc, rule) => acc + runRule(rule, denyRules), 0)\<close>,
  with the accumulators threaded through. The result is \<open>totalFilesCopied\<close> and the
  final accumulators.
\<close>

definition runRules :: "host \<Rightarrow> options \<Rightarrow> string list \<Rightarrow> string list \<Rightarrow> run_state \<Rightarrow> nat \<times> run_state" where
  "runRules h c copyRules denyRules s =
     foldl (\<lambda>acc rule. let r = runRule h c rule denyRules (snd acc) in (fst acc + fst r, snd r))
       (0, s) copyRules"

text \<open>The files of a run in resolution order: rule by rule, each in glob order.\<close>

definition resolutionOrder :: "host \<Rightarrow> options \<Rightarrow> string list \<Rightarrow> string list \<Rightarrow> string list" where
  "resolutionOrder h c copyRules denyRules = concat (map (ruleFiles h c denyRules) copyRules)"

text \<open>A file whose size can be read and does not exceed the limit.\<close>

definition passesSizeCheck :: "host \<Rightarrow> options \<Rightarrow> string \<Rightarrow> bool" where
  "passesSizeCheck h c sourceFile =
     (case statSync h sourceFile of None \<Rightarrow> False
      | Some fileSize \<Rightarrow> \<not> exceedsLimit (maxFileSize c) fileSize)"

text \<open>
  The loop body and the loop on the accumulators alone, without the counter: the
  accumulators after a file do not depend on \<open>successfulCopies\<close>.
\<close>

definition fileStep :: "host \<Rightarrow> options \<Rightarrow> run_state \<Rightarrow> string \<Rightarrow> run_state" where
  "fileStep h c s sourceFile = snd (processFile h c sourceFile (0, s))"

definition processFiles :: "host \<Rightarrow> options \<Rightarrow> run_state \<Rightarrow> string list \<Rightarrow> run_state" where
  "processFiles h c s files = foldl (fileStep h c) s files"

text \<open>
  The branch a file takes, given the destinations copied so far: the decisions of
  \<open>processFile\<close> without its bookkeeping.
\<close>

definition fileOutcome :: "host \<Rightarrow> options \<Rightarrow> string list \<Rightarrow> string \<Rightarrow> outcome" where
  "fileOutcome h c copied sourceFile =
     (case statSync h sourceFile of
        None \<Rightarrow> Error
      | Some fileSize \<Rightarrow>
          if exceedsLimit (maxFileSize c) fileSize then SkippedSize
          else if targetFilePath h c sourceFile \<in> set copied then SkippedDuplicate
          else if dryRun c then WouldCopy
          else if copyFileSync h sourceFile (targetFilePath h c sourceFile) then Copied
          else Error)"

text \<open>
  What a dry run should report for the result of a real run: the same counter and
  accumulators, with no copy recorded and copied reported as would-copy.
\<close>

definition asDryRun :: "outcome \<Rightarrow> outcome" where
  "asDryRun result = (if result = Copied then WouldCopy else result)"

definition dryRunView :: "nat \<times> run_state \<Rightarrow> nat \<times> run_state" where
  "dryRunView acc =
     (fst acc,
      (snd acc)\<lparr>copiedFiles := [], written := [],
        outcomes := map (\<lambda>e. (fst e, asDryRun (snd e))) (outcomes (snd acc))\<rparr>)"

section \<open>\<open>parseFileSize\<close>\<close>

text \<open>Lines 163 to 173.\<close>

text \<open>The number of binary digits of a natural number.\<close>

fun bitLength :: "nat \<Rightarrow> nat" where
  "bitLength n = (if n = 0 then 0 else Suc (bitLength (n div 2)))"

declare bitLength.simps [simp del]

text \<open>The exponent \<open>e\<close> with \<open>2 ^ e \<le> x < 2 ^ (e + 1)\<close>, for \<open>x > 0\<close>.\<close>

definition binaryExponent :: "real \<Rightarrow> int" where
  "binaryExponent x =
     (if 1 \<le> x then int (bitLength (nat \<lfloor>x\<rfloor>)) - 1
      else - int (bitLength (nat (\<lceil>1 / x\<rceil> - 1))))"

definition pow2 :: "int \<Rightarrow> real" where
  "pow2 k = (if 0 \<le> k then 2 ^ nat k else 1 / 2 ^ nat (- k))"

definition roundHalfEven :: "real \<Rightarrow> int" where
  "roundHalfEven x =
     (let f = \<lfloor>x\<rfloor>; r = x - of_int f
      in if r < 1 / 2 then f else if 1 / 2 < r then f + 1 else if even f then f else f + 1)"

text \<open>
  The Number value for a real \<open>x \<ge> 0\<close> (ECMAScript, 6.1.6.1): the nearest double, a
  tie going to the even significand. Doubles in \<open>[2 ^ e, 2 ^ (e + 1))\<close> are
  \<open>2 ^ (e - 52)\<close> apart, and \<open>2 ^ (- 1074)\<close> apart below \<open>2 ^ (- 1022)\<close>; a result of
  \<open>2 ^ 1024\<close> or more is \<open>Infinity\<close>.
\<close>

definition numberValue :: "real \<Rightarrow> number" where
  "numberValue x =
     (if x \<le> 0 then Finite 0
      else let e = max (binaryExponent x) (- 1022);
               ulp = pow2 (e - 52);
               v = of_int (roundHalfEven (x / ulp)) * ulp
           in if pow2 1024 \<le> v then PlusInfinity else Finite v)"

text \<open>\<open>*\<close> on numbers that are not negative, and \<open>Math.floor\<close>.\<close>

definition multiply :: "number \<Rightarrow> number \<Rightarrow> number" where
  "multiply a b =
     (case (a, b) of
        (Finite x, Finite y) \<Rightarrow> numberValue (x * y)
      | (Finite x, PlusInfinity) \<Rightarrow> if x = 0 then NaN else PlusInfinity
      | (PlusInfinity, Finite y) \<Rightarrow> if y = 0 then NaN else PlusInfinity
      | (PlusInfinity, PlusInfinity) \<Rightarrow> PlusInfinity
      | _ \<Rightarrow> NaN)"

definition mathFloor :: "number \<Rightarrow> number" where
  "mathFloor a = (case a of Finite x \<Rightarrow> Finite (of_int \<lfloor>x\<rfloor>) | _ \<Rightarrow> a)"

text \<open>The error thrown on line 168, with the string it reports.\<close>

datatype error = InvalidFileSizeFormat string

text \<open>
  The regular expression of line 165, \<^verbatim>\<open>/^(\d+(?:\.\d+)?)(B|KB|MB|GB)$/i\<close>. \<open>\d\<close> is an
  ASCII digit, and with the flag \<open>i\<close> a letter of the pattern matches its two cases.
  \<open>matchSize\<close> gives the two groups of a match. It reads the digits greedily, as
  the expression does; giving digits back never helps, since what follows them must
  begin with a point or a letter, and a point with no digit after it cannot begin a
  unit.
\<close>

definition isDigit :: "char \<Rightarrow> bool" where
  "isDigit c = (c \<in> set ''0123456789'')"

definition toUpperCase_char :: "char \<Rightarrow> char" where
  "toUpperCase_char c =
     (case map_of (zip ''abcdefghijklmnopqrstuvwxyz'' ''ABCDEFGHIJKLMNOPQRSTUVWXYZ'') c of
        None \<Rightarrow> c | Some upper \<Rightarrow> upper)"

definition toUpperCase :: "string \<Rightarrow> string" where
  "toUpperCase s = map toUpperCase_char s"

definition matchesUnit :: "string \<Rightarrow> bool" where
  "matchesUnit s = (toUpperCase s \<in> set [''B'', ''KB'', ''MB'', ''GB''])"

definition matchSize :: "string \<Rightarrow> (string \<times> string) option" where
  "matchSize sizeStr =
     (let intPart = takeWhile isDigit sizeStr; rest = dropWhile isDigit sizeStr in
      if intPart = [] then None
      else if rest \<noteq> [] \<and> hd rest = CHR ''.'' \<and> takeWhile isDigit (tl rest) \<noteq> [] then
        (let fracPart = takeWhile isDigit (tl rest); unit = dropWhile isDigit (tl rest) in
         if matchesUnit unit then Some (intPart @ ''.'' @ fracPart, unit) else None)
      else if matchesUnit rest then Some (intPart, rest) else None)"

text \<open>
  \<open>Number.parseFloat\<close> on text that begins with digits: the digits, and the digits
  after a point if there is one, read in base ten and rounded to a double. (Signs and
  exponents, which \<open>parseFloat\<close> also reads, cannot occur in the first group of a
  match. The rounding is exact, as the standard requires up to 20 significant digits
  and as V8 does beyond.)
\<close>

definition digitsValue :: "string \<Rightarrow> nat" where
  "digitsValue ds = foldl (\<lambda>n c. 10 * n + (of_char c - 48)) 0 ds"

definition parseFloat :: "string \<Rightarrow> number" where
  "parseFloat s =
     (let intPart = takeWhile isDigit s; rest = dropWhile isDigit s;
          fracPart = (if rest \<noteq> [] \<and> hd rest = CHR ''.'' then takeWhile isDigit (tl rest) else [])
      in if intPart = [] \<and> fracPart = [] then NaN
         else numberValue (real (digitsValue intPart) + real (digitsValue fracPart) / 10 ^ length fracPart))"

definition units :: "(string \<times> nat) list" where
  "units = [(''B'', 1), (''KB'', 1024), (''MB'', 1024 * 1024), (''GB'', 1024 * 1024 * 1024)]"

definition parseFileSize :: "string \<Rightarrow> error + number" where
  "parseFileSize sizeStr =
     (case matchSize sizeStr of
        None \<Rightarrow> Inl (InvalidFileSizeFormat sizeStr)
      | Some (sizeText, unit) \<Rightarrow>
          Inr (mathFloor (multiply (parseFloat sizeText)
                 (case map_of units (toUpperCase unit) of None \<Rightarrow> NaN
                  | Some factor \<Rightarrow> Finite (real factor)))))"

text \<open>
  The size format in the words of the specification, to compare \<open>matchSize\<close> with:
  a number, decimals allowed, immediately followed by a unit among \<open>B\<close>, \<open>KB\<close>,
  \<open>MB\<close>, \<open>GB\<close> in either case; and the exponent \<open>n\<close> of the unit's factor
  \<open>1024 ^ n\<close>.
\<close>

definition digitString :: "string \<Rightarrow> bool" where
  "digitString ds = (ds \<noteq> [] \<and> (\<forall>c \<in> set ds. isDigit c))"

definition specSizeFormat :: "string \<Rightarrow> bool" where
  "specSizeFormat s =
     (\<exists>ip u. digitString ip \<and> matchesUnit u
        \<and> (s = ip @ u \<or> (\<exists>fp. digitString fp \<and> s = ip @ ''.'' @ fp @ u)))"

definition unitExponent :: "string \<Rightarrow> nat" where
  "unitExponent unit =
     (if toUpperCase unit = ''B'' then 0 else if toUpperCase unit = ''KB'' then 1
      else if toUpperCase unit = ''MB'' then 2 else 3)"

section \<open>A sample host\<close>

text \<open>
  A small POSIX tree for the concrete runs below: two inclusion patterns find
  \<open>a.ts\<close>; \<open>a_/b\<close> and \<open>a/_b\<close> are two files of different sizes; the size of
  \<open>src/gone.ts\<close> cannot be read and \<open>src/locked.ts\<close> cannot be copied; the one
  exclusion pattern matches \<open>src/x.test.ts\<close>.
\<close>

definition demo_host :: host where
  "demo_host =
     \<lparr>pathSeparator = CHR ''/'',
      join = (\<lambda>dir name. dir @ ''/'' @ name),
      globSync = (\<lambda>pattern follow.
        if pattern = ''a.ts'' then [''a.ts'']
        else if pattern = ''b.ts'' then [''b.ts'']
        else if pattern = ''*.ts'' then [''a.ts'', ''b.ts'']
        else if pattern = ''**/*'' then [''a_/b'', ''a/_b'']
        else if pattern = ''src/*'' then [''src/gone.ts'', ''src/locked.ts'', ''src/x.test.ts'', ''src/ok.ts'']
        else if pattern = ''*.bin'' then [''exact.bin'', ''over.bin'']
        else []),
      minimatch = (\<lambda>file pattern. pattern = ''**/*.test.*'' \<and> file = ''src/x.test.ts''),
      statSync = (\<lambda>file.
        if file = ''src/gone.ts'' then None
        else if file = ''a.ts'' then Some 10
        else if file = ''b.ts'' then Some 2000
        else if file = ''a_/b'' then Some 2000
        else if file = ''a/_b'' then Some 10
        else if file = ''exact.bin'' then Some 1024
        else if file = ''over.bin'' then Some 1025
        else Some 1),
      copyFileSync = (\<lambda>source destination. source \<noteq> ''src/locked.ts'')\<rparr>"

definition demo_options :: "bool \<Rightarrow> number option \<Rightarrow> options" where
  "demo_options dry limit =
     \<lparr>targetPath = ''../out'', followSymlinks = False, dryRun = dry, maxFileSize = limit\<rparr>"

section \<open>Unfolding rules for concrete runs\<close>

lemmas number_simps = numberValue_def binaryExponent_def pow2_def roundHalfEven_def bitLength.simps Let_def

lemmas parse_simps = parseFileSize_def matchSize_def matchesUnit_def toUpperCase_def
  toUpperCase_char_def isDigit_def units_def parseFloat_def digitsValue_def multiply_def
  mathFloor_def number_simps

lemmas demo_simps = runRules_def runRule_def ruleFiles_def applyDenyRules_def processFile_def
      demo_host_def demo_options_def initial_state_def targetFilePath_def exceedsLimit_def
      flattenedFileName_def components_def split_def replaceAll_underscore_def Let_def

section \<open>Properties of the path transform\<close>



lemma split_from_append_sep:
  "split_from sep cur (a @ sep # b) = split_from sep cur a @ split_from sep [] b"
  by (induction a arbitrary: cur) simp_all

lemma split_append_sep: "split sep (a @ sep # b) = split sep a @ split sep b"
  by (simp add: split_def split_from_append_sep)

lemma replaceAll_underscore_append:
  "replaceAll_underscore (a @ b) = replaceAll_underscore a @ replaceAll_underscore b"
  by (simp add: replaceAll_underscore_def)

lemma replaceAll_underscore_sep:
  "sep \<noteq> CHR ''_'' \<Longrightarrow> replaceAll_underscore (sep # b) = sep # replaceAll_underscore b"
  by (simp add: replaceAll_underscore_def)

lemma components_append_sep:
  assumes "sep \<noteq> CHR ''_''"
  shows "components sep (a @ sep # b) = components sep a @ components sep b"
  using assms
  by (simp add: components_def replaceAll_underscore_append replaceAll_underscore_sep
      split_append_sep)

lemma components_dot:
  assumes "sep \<noteq> CHR ''.''"
  shows "components sep ''.'' = []"
  using assms by (simp add: components_def split_def replaceAll_underscore_def)

lemma flattenedFileName_drops_dot:
  assumes "sep \<noteq> CHR ''_''" and "sep \<noteq> CHR ''.''"
  shows "flattenedFileName sep (dir @ sep # ''.'' @ sep # rest) = flattenedFileName sep (dir @ sep # rest)"
    and "flattenedFileName sep (''.'' @ sep # rest) = flattenedFileName sep rest"
proof -
  have "components sep (dir @ sep # ''.'' @ sep # rest)
        = components sep dir @ components sep ''.'' @ components sep rest"
    using components_append_sep [OF assms(1), of dir "''.'' @ sep # rest"]
      components_append_sep [OF assms(1), of "''.''" rest] by simp
  then show "flattenedFileName sep (dir @ sep # ''.'' @ sep # rest) = flattenedFileName sep (dir @ sep # rest)"
    using components_dot [OF assms(2)] components_append_sep [OF assms(1), of dir rest]
    by (simp add: flattenedFileName_def)
  have "components sep (''.'' @ sep # rest) = components sep ''.'' @ components sep rest"
    using components_append_sep [OF assms(1), of "''.''" rest] by simp
  then show "flattenedFileName sep (''.'' @ sep # rest) = flattenedFileName sep rest"
    using components_dot [OF assms(2)] by (simp add: flattenedFileName_def)
qed

text \<open>
  Escaping commutes with splitting, and the reader undoes the join when no component
  begins with an underscore: on such paths the transform is injective.
\<close>

lemma split_from_escaped:
  assumes "sep \<noteq> CHR ''_''"
  shows "split_from sep (replaceAll_underscore cur) (replaceAll_underscore s)
         = map replaceAll_underscore (split_from sep cur s)"
proof (induction s arbitrary: cur)
  case Nil
  show ?case by (simp add: replaceAll_underscore_def)
next
  case (Cons ch s)
  have app: "replaceAll_underscore (cur @ [ch]) = replaceAll_underscore cur @ replaceAll_underscore [ch]"
    by (rule replaceAll_underscore_append)
  show ?case
  proof (cases "ch = CHR ''_''")
    case True
    then have "replaceAll_underscore (ch # s) = CHR ''_'' # CHR ''_'' # replaceAll_underscore s"
      by (simp add: replaceAll_underscore_def)
    moreover have "replaceAll_underscore (cur @ [ch]) = replaceAll_underscore cur @ ''__''"
      using True app by (simp add: replaceAll_underscore_def)
    ultimately show ?thesis
      using assms True Cons.IH [of "cur @ [ch]"] by simp
  next
    case False
    then have "replaceAll_underscore (ch # s) = ch # replaceAll_underscore s"
      by (simp add: replaceAll_underscore_def)
    moreover have "replaceAll_underscore (cur @ [ch]) = replaceAll_underscore cur @ [ch]"
      using False app by (simp add: replaceAll_underscore_def)
    moreover have "replaceAll_underscore [] = []"
      by (simp add: replaceAll_underscore_def)
    ultimately show ?thesis
      using Cons.IH [of "cur @ [ch]"] Cons.IH [of "[]"] by simp
  qed
qed

lemma split_escaped:
  "sep \<noteq> CHR ''_'' \<Longrightarrow>
     split sep (replaceAll_underscore s) = map replaceAll_underscore (split sep s)"
  using split_from_escaped [of sep "[]" s] by (simp add: split_def replaceAll_underscore_def)

lemma unjoin_from_plain:
  "a \<noteq> CHR ''_'' \<Longrightarrow> unjoin_from cur (a # t) = unjoin_from (cur @ [a]) t"
  by (cases t) simp_all

lemma unjoin_from_pair:
  "unjoin_from cur (CHR ''_'' # CHR ''_'' # t) = unjoin_from (cur @ ''__'') t"
  by simp

lemma unjoin_from_separator:
  "b \<noteq> CHR ''_'' \<Longrightarrow> unjoin_from cur (CHR ''_'' # b # t) = cur # unjoin_from [] (b # t)"
  by simp

lemma unjoin_from_escaped:
  "unjoin_from cur (replaceAll_underscore x @ rest)
   = unjoin_from (cur @ replaceAll_underscore x) rest"
proof (induction x arbitrary: cur)
  case Nil
  show ?case by (simp add: replaceAll_underscore_def)
next
  case (Cons ch x)
  show ?case
  proof (cases "ch = CHR ''_''")
    case True
    then have e: "replaceAll_underscore (ch # x) = CHR ''_'' # CHR ''_'' # replaceAll_underscore x"
      by (simp add: replaceAll_underscore_def)
    show ?thesis
      unfolding e using Cons.IH [of "cur @ ''__''"] by (simp del: unjoin_from.simps add: unjoin_from_pair)
  next
    case False
    then have e: "replaceAll_underscore (ch # x) = ch # replaceAll_underscore x"
      by (simp add: replaceAll_underscore_def)
    show ?thesis
      unfolding e using False Cons.IH [of "cur @ [ch]"]
      by (simp del: unjoin_from.simps add: unjoin_from_plain)
  qed
qed

lemma replaceAll_underscore_plainStart:
  "plainStart x \<Longrightarrow> replaceAll_underscore x = hd x # replaceAll_underscore (tl x)"
  by (cases x) (simp_all add: plainStart_def replaceAll_underscore_def)

lemma unjoin_from_components:
  assumes "\<forall>y \<in> set ys. plainStart y"
  shows "unjoin_from cur (replaceAll_underscore x
           @ concat (map (\<lambda>y. CHR ''_'' # replaceAll_underscore y) ys))
         = (cur @ replaceAll_underscore x) # map replaceAll_underscore ys"
  using assms
proof (induction ys arbitrary: cur x)
  case Nil
  show ?case using unjoin_from_escaped [of cur x "[]"] by simp
next
  case (Cons y ys)
  let ?rest = "concat (map (\<lambda>y. CHR ''_'' # replaceAll_underscore y) ys)"
  have y: "plainStart y" and ys: "\<forall>y \<in> set ys. plainStart y"
    using Cons.prems by simp_all
  have hd: "hd y \<noteq> CHR ''_''" using y by (simp add: plainStart_def)
  have "unjoin_from cur (replaceAll_underscore x @ CHR ''_'' # replaceAll_underscore y @ ?rest)
        = unjoin_from (cur @ replaceAll_underscore x) (CHR ''_'' # replaceAll_underscore y @ ?rest)"
    by (rule unjoin_from_escaped)
  also have "\<dots> = unjoin_from (cur @ replaceAll_underscore x)
                     (CHR ''_'' # hd y # (replaceAll_underscore (tl y) @ ?rest))"
    using replaceAll_underscore_plainStart [OF y] by simp
  also have "\<dots> = (cur @ replaceAll_underscore x)
                     # unjoin_from [] (hd y # (replaceAll_underscore (tl y) @ ?rest))"
    using hd by (rule unjoin_from_separator)
  also have "hd y # (replaceAll_underscore (tl y) @ ?rest) = replaceAll_underscore y @ ?rest"
    using replaceAll_underscore_plainStart [OF y] by simp
  also have "unjoin_from [] (replaceAll_underscore y @ ?rest)
             = ([] @ replaceAll_underscore y) # map replaceAll_underscore ys"
    using ys by (rule Cons.IH)
  finally show ?case by simp
qed

lemma join_with_escaped:
  "join_with ''_'' (map replaceAll_underscore (x # ys))
   = replaceAll_underscore x @ concat (map (\<lambda>y. CHR ''_'' # replaceAll_underscore y) ys)"
  by (induction ys arbitrary: x) simp_all

lemma unjoin_join_with:
  assumes "\<forall>x \<in> set xs. plainStart x"
  shows "unjoin (join_with ''_'' (map replaceAll_underscore xs)) = map replaceAll_underscore xs"
proof (cases xs)
  case Nil
  then show ?thesis by (simp add: unjoin_def)
next
  case (Cons x ys)
  have x: "plainStart x" and ys: "\<forall>y \<in> set ys. plainStart y"
    using assms Cons by simp_all
  let ?joined = "replaceAll_underscore x @ concat (map (\<lambda>y. CHR ''_'' # replaceAll_underscore y) ys)"
  have e: "join_with ''_'' (map replaceAll_underscore xs) = ?joined"
    using join_with_escaped [of x ys] by (simp only: Cons)
  have "replaceAll_underscore x \<noteq> []"
    using replaceAll_underscore_plainStart [OF x] by simp
  then have ne: "?joined \<noteq> []" by simp
  have "unjoin_from [] ?joined = replaceAll_underscore x # map replaceAll_underscore ys"
    using unjoin_from_components [OF ys, of "[]" x] by simp
  then show ?thesis
    unfolding unjoin_def e using ne by (simp add: Cons)
qed

lemma components_escaped:
  assumes "sep \<noteq> CHR ''_''"
  shows "components sep sourceFile
         = map replaceAll_underscore
             (filter (\<lambda>x. replaceAll_underscore x \<noteq> []
                          \<and> replaceAll_underscore x \<notin> set [''node_modules'', ''.''])
                (split sep sourceFile))"
  using assms by (simp add: components_def split_escaped filter_map comp_def conj_commute)

lemma plainStart_escaped:
  "replaceAll_underscore x \<noteq> [] \<Longrightarrow> hd (replaceAll_underscore x) \<noteq> CHR ''_'' \<Longrightarrow> plainStart x"
  by (cases x) (auto simp: plainStart_def replaceAll_underscore_def split: if_splits)

lemma unjoin_flattenedFileName:
  assumes "sep \<noteq> CHR ''_''"
    and "\<forall>c \<in> set (components sep sourceFile). hd c \<noteq> CHR ''_''"
  shows "unjoin (flattenedFileName sep sourceFile) = components sep sourceFile"
proof -
  let ?xs = "filter (\<lambda>x. replaceAll_underscore x \<noteq> []
                          \<and> replaceAll_underscore x \<notin> set [''node_modules'', ''.''])
                (split sep sourceFile)"
  have c: "components sep sourceFile = map replaceAll_underscore ?xs"
    using assms(1) by (rule components_escaped)
  have "\<forall>x \<in> set ?xs. plainStart x"
  proof
    fix x assume x: "x \<in> set ?xs"
    then have "replaceAll_underscore x \<in> set (components sep sourceFile)"
      unfolding c by (rule imageI [of x "set ?xs" replaceAll_underscore, simplified set_map [symmetric]])
    then have "hd (replaceAll_underscore x) \<noteq> CHR ''_''"
      using assms(2) by simp
    moreover have "replaceAll_underscore x \<noteq> []" using x by simp
    ultimately show "plainStart x" by (simp add: plainStart_escaped)
  qed
  then have "unjoin (join_with ''_'' (map replaceAll_underscore ?xs)) = map replaceAll_underscore ?xs"
    by (rule unjoin_join_with)
  then show ?thesis unfolding flattenedFileName_def c .
qed

lemma flattenedFileName_injective:
  assumes "sep \<noteq> CHR ''_''"
    and "\<forall>c \<in> set (components sep p). hd c \<noteq> CHR ''_''"
    and "\<forall>c \<in> set (components sep q). hd c \<noteq> CHR ''_''"
    and "flattenedFileName sep p = flattenedFileName sep q"
  shows "components sep p = components sep q"
proof -
  have "components sep p = unjoin (flattenedFileName sep p)"
    using assms(1,2) by (simp add: unjoin_flattenedFileName)
  also have "\<dots> = unjoin (flattenedFileName sep q)"
    by (simp add: assms(4))
  also have "\<dots> = components sep q"
    using assms(1,3) by (simp add: unjoin_flattenedFileName)
  finally show ?thesis .
qed


text \<open>
  C1 (the transform is claimed injective on paths with different component sequences).
  The directory \<open>a_\<close> holding the file \<open>b\<close> and the directory \<open>a\<close> holding the file
  \<open>_b\<close> are two paths whose component sequences differ, with no \<open>.\<close> or
  \<open>node_modules\<close> segment in either, and both get the flat name \<open>a___b\<close>: a doubled
  underscore next to the joining underscore cannot be told from the reverse.
\<close>

theorem flattenedFileName_collision:
  "pathComponents CHR ''/'' ''a_/b'' = [''a_'', ''b'']
   \<and> pathComponents CHR ''/'' ''a/_b'' = [''a'', ''_b'']
   \<and> components CHR ''/'' ''a_/b'' \<noteq> components CHR ''/'' ''a/_b''
   \<and> flattenedFileName CHR ''/'' ''a_/b'' = ''a___b''
   \<and> flattenedFileName CHR ''/'' ''a/_b'' = ''a___b''"
  by (simp add: flattenedFileName_def components_def pathComponents_def split_def
      replaceAll_underscore_def)

text \<open>
  C2 (two paths that differ only in a \<open>.\<close> or \<open>node_modules\<close> segment get the same
  flat name). The underscore of \<open>node_modules\<close> is doubled before the components are
  compared with the literal \<open>node_modules\<close>, so the segment is kept:
  \<open>node_modules/a.js\<close> and \<open>a.js\<close> get different flat names.
\<close>

theorem flattenedFileName_keeps_node_modules:
  "flattenedFileName CHR ''/'' ''node_modules/a.js'' = ''node__modules_a.js''
   \<and> flattenedFileName CHR ''/'' ''a.js'' = ''a.js''
   \<and> flattenedFileName CHR ''/'' ''node_modules/a.js'' \<noteq> flattenedFileName CHR ''/'' ''a.js''"
  by (simp add: flattenedFileName_def components_def split_def replaceAll_underscore_def)




section \<open>Properties of the rule engine\<close>

lemma processFile_snd: "snd (processFile h c f (n, s)) = fileStep h c s f"
  by (simp add: processFile_def fileStep_def Let_def split: option.splits)

lemma processFile_fst: "fst (processFile h c f (n, s)) = n + fst (processFile h c f (0, s))"
  by (simp add: processFile_def Let_def split: option.splits)

lemma foldl_processFile_snd:
  "snd (foldl (\<lambda>acc f. processFile h c f acc) (n, s) files) = processFiles h c s files"
proof (induction files arbitrary: n s)
  case Nil
  show ?case by (simp add: processFiles_def)
next
  case (Cons f files)
  obtain m where m: "processFile h c f (n, s) = (m, fileStep h c s f)"
    by (metis prod.collapse processFile_snd)
  have "snd (foldl (\<lambda>acc f. processFile h c f acc) (m, fileStep h c s f) files)
        = processFiles h c (fileStep h c s f) files"
    by (rule Cons.IH)
  with m show ?case by (simp add: processFiles_def)
qed

lemma runRule_snd: "snd (runRule h c pattern denyRules s) = processFiles h c s (ruleFiles h c denyRules pattern)"
  by (simp add: runRule_def Let_def foldl_processFile_snd) (simp add: processFiles_def)

lemma processFiles_append: "processFiles h c s (xs @ ys) = processFiles h c (processFiles h c s xs) ys"
  by (simp add: processFiles_def)

lemma runRules_snd_gen:
  "snd (foldl (\<lambda>acc rule. let r = runRule h c rule denyRules (snd acc) in (fst acc + fst r, snd r)) (n, s) copyRules)
   = processFiles h c s (concat (map (ruleFiles h c denyRules) copyRules))"
proof (induction copyRules arbitrary: n s)
  case Nil
  show ?case by (simp add: processFiles_def)
next
  case (Cons r rs)
  let ?step = "\<lambda>acc rule. let r = runRule h c rule denyRules (snd acc) in (fst acc + fst r, snd r)"
  have "snd (foldl ?step (n + fst (runRule h c r denyRules s), snd (runRule h c r denyRules s)) rs)
        = processFiles h c (snd (runRule h c r denyRules s)) (concat (map (ruleFiles h c denyRules) rs))"
    by (rule Cons.IH)
  then show ?case by (simp add: Let_def runRule_snd processFiles_append del: foldl_Cons) (simp add: Let_def runRule_snd)
qed

lemma runRules_snd: "snd (runRules h c copyRules denyRules s) = processFiles h c s (resolutionOrder h c copyRules denyRules)"
  by (simp add: runRules_def resolutionOrder_def runRules_snd_gen)


lemma outcomes_fileStep:
  "outcomes (fileStep h c s f) = outcomes s @ [(f, fileOutcome h c (copiedFiles s) f)]"
  by (simp add: fileStep_def processFile_def fileOutcome_def Let_def split: option.splits)

lemma copiedFiles_fileStep:
  "copiedFiles (fileStep h c s f) =
     (if fileOutcome h c (copiedFiles s) f = Copied then copiedFiles s @ [targetFilePath h c f]
      else copiedFiles s)"
  by (simp add: fileStep_def processFile_def fileOutcome_def Let_def split: option.splits)


lemma skippedFiles_fileStep:
  "skippedFiles (fileStep h c s f) =
     (if fileOutcome h c (copiedFiles s) f \<in> {SkippedSize, SkippedDuplicate}
      then skippedFiles s @ [f] else skippedFiles s)"
  by (simp add: fileStep_def processFile_def fileOutcome_def Let_def split: option.splits)

lemma processFiles_snoc: "processFiles h c s (ps @ [f]) = fileStep h c (processFiles h c s ps) f"
  by (simp add: processFiles_def)

lemma processFiles_Nil: "processFiles h c s [] = s"
  by (simp add: processFiles_def)

lemma outcomes_processFiles:
  "\<exists>zs. outcomes (processFiles h c s ps) = outcomes s @ zs \<and> map fst zs = ps"
proof (induction ps rule: rev_induct)
  case Nil
  show ?case by (simp add: processFiles_Nil)
next
  case (snoc f ps)
  then obtain zs where zs: "outcomes (processFiles h c s ps) = outcomes s @ zs" "map fst zs = ps"
    by blast
  have "outcomes (processFiles h c s (ps @ [f]))
        = outcomes s @ (zs @ [(f, fileOutcome h c (copiedFiles (processFiles h c s ps)) f)])"
    by (simp add: processFiles_snoc outcomes_fileStep zs)
  moreover have "map fst (zs @ [(f, fileOutcome h c (copiedFiles (processFiles h c s ps)) f)]) = ps @ [f]"
    by (simp add: zs)
  ultimately show ?case by blast
qed

lemma map_fst_outcomes_processFiles:
  "map fst (outcomes (processFiles h c s ps)) = map fst (outcomes s) @ ps"
  using outcomes_processFiles [of h c s ps] by auto

lemma length_outcomes_processFiles:
  "length (outcomes (processFiles h c s ps)) = length (outcomes s) + length ps"
  using arg_cong [OF map_fst_outcomes_processFiles [of h c s ps], of length] by simp

lemma outcomes_processFiles_nth:
  assumes "j < length ps"
  shows "outcomes (processFiles h c s ps) ! (length (outcomes s) + j)
         = (ps ! j, fileOutcome h c (copiedFiles (processFiles h c s (take j ps))) (ps ! j))"
proof -
  let ?pre = "processFiles h c s (take j ps)"
  have split: "ps = (take j ps @ [ps ! j]) @ drop (Suc j) ps"
    using assms by (simp add: id_take_nth_drop [symmetric])
  have mid: "outcomes (processFiles h c s (take j ps @ [ps ! j]))
             = outcomes ?pre @ [(ps ! j, fileOutcome h c (copiedFiles ?pre) (ps ! j))]"
    by (simp add: processFiles_snoc outcomes_fileStep)
  obtain zs where zs: "outcomes (processFiles h c (processFiles h c s (take j ps @ [ps ! j])) (drop (Suc j) ps))
                       = outcomes (processFiles h c s (take j ps @ [ps ! j])) @ zs"
    using outcomes_processFiles by blast
  have whole: "outcomes (processFiles h c s ps)
               = outcomes ?pre @ [(ps ! j, fileOutcome h c (copiedFiles ?pre) (ps ! j))] @ zs"
    using zs mid processFiles_append [of h c s "take j ps @ [ps ! j]" "drop (Suc j) ps"] split
    by simp
  have len: "length (outcomes ?pre) = length (outcomes s) + j"
    using assms by (simp add: length_outcomes_processFiles)
  show ?thesis
    unfolding whole using len by (simp add: nth_append)
qed

lemma copiedFiles_processFiles_mono:
  "set (copiedFiles s) \<subseteq> set (copiedFiles (processFiles h c s ps))"
  by (induction ps rule: rev_induct)
     (auto simp: processFiles_Nil processFiles_snoc copiedFiles_fileStep)

lemma copiedFiles_processFiles_bound:
  "set (copiedFiles (processFiles h c s ps)) \<subseteq> set (copiedFiles s) \<union> targetFilePath h c ` set ps"
  by (induction ps rule: rev_induct)
     (auto simp: processFiles_Nil processFiles_snoc copiedFiles_fileStep)


lemma skippedFiles_processFiles:
  "skippedFiles (processFiles h c s ps)
   = skippedFiles s @ map fst (filter (\<lambda>e. snd e \<in> {SkippedSize, SkippedDuplicate}) (drop (length (outcomes s)) (outcomes (processFiles h c s ps))))"
proof (induction ps rule: rev_induct)
  case Nil
  show ?case by (simp add: processFiles_Nil)
next
  case (snoc f ps)
  have le: "length (outcomes s) \<le> length (outcomes (processFiles h c s ps))"
    by (simp add: length_outcomes_processFiles)
  show ?case using snoc.IH le
    by (simp add: processFiles_snoc skippedFiles_fileStep outcomes_fileStep)
qed


lemma applyDenyRules_filter:
  "applyDenyRules h denyRules files
   = filter (\<lambda>file. \<forall>denyRule \<in> set denyRules. \<not> minimatch h file denyRule) files"
proof -
  have "foldl (\<lambda>files denyRule. filter (\<lambda>file. \<not> minimatch h file denyRule) files) files denyRules
        = filter (\<lambda>file. \<forall>denyRule \<in> set denyRules. \<not> minimatch h file denyRule) files"
  proof (induction denyRules arbitrary: files)
    case Nil
    show ?case by simp
  next
    case (Cons d ds)
    show ?case by (simp add: Cons.IH conj_commute)
  qed
  then show ?thesis by (simp add: applyDenyRules_def)
qed

lemma ruleFiles_set_cong:
  "set denyRules' = set denyRules \<Longrightarrow> ruleFiles h c denyRules' = ruleFiles h c denyRules"
  by (rule ext) (simp add: ruleFiles_def applyDenyRules_filter)

lemma runRule_set_cong:
  "set denyRules' = set denyRules \<Longrightarrow> runRule h c pattern denyRules' s = runRule h c pattern denyRules s"
  using ruleFiles_set_cong [of denyRules' denyRules h c] by (simp add: runRule_def)

lemma runRules_set_cong:
  "set denyRules' = set denyRules \<Longrightarrow> runRules h c copyRules denyRules' s = runRules h c copyRules denyRules s"
proof -
  assume "set denyRules' = set denyRules"
  then have "\<And>pattern s. runRule h c pattern denyRules' s = runRule h c pattern denyRules s"
    by (rule runRule_set_cong)
  then show ?thesis by (simp add: runRules_def)
qed

lemma resolutionOrder_not_denied:
  "f \<in> set (resolutionOrder h c copyRules denyRules) \<Longrightarrow> d \<in> set denyRules \<Longrightarrow> \<not> minimatch h f d"
  by (auto simp: resolutionOrder_def ruleFiles_def applyDenyRules_filter)

lemma outcomes_runRules_initial:
  "map fst (outcomes (snd (runRules h c copyRules denyRules initial_state)))
   = resolutionOrder h c copyRules denyRules"
  by (simp add: runRules_snd map_fst_outcomes_processFiles) (simp add: initial_state_def)

text \<open>
  C5 (exclusion is exhaustive and does not depend on the order of the rules). The
  loop over the exclusion rules keeps exactly the files that match none of them; two
  lists with the same rules, in any order, give the same run; and no file with an
  outcome, copied and would-copy included, matches an exclusion rule.
\<close>

theorem exclusion_exhaustive:
  "applyDenyRules h denyRules files
     = filter (\<lambda>file. \<forall>denyRule \<in> set denyRules. \<not> minimatch h file denyRule) files
   \<and> (set denyRules' = set denyRules \<longrightarrow>
        runRules h c copyRules denyRules' s = runRules h c copyRules denyRules s)
   \<and> (\<forall>e \<in> set (outcomes (snd (runRules h c copyRules denyRules initial_state))).
        \<forall>denyRule \<in> set denyRules. \<not> minimatch h (fst e) denyRule)"
proof (intro conjI impI ballI)
  show "applyDenyRules h denyRules files
     = filter (\<lambda>file. \<forall>denyRule \<in> set denyRules. \<not> minimatch h file denyRule) files"
    by (rule applyDenyRules_filter)
next
  assume "set denyRules' = set denyRules"
  then show "runRules h c copyRules denyRules' s = runRules h c copyRules denyRules s"
    by (rule runRules_set_cong)
next
  fix e denyRule
  assume e: "e \<in> set (outcomes (snd (runRules h c copyRules denyRules initial_state)))"
    and d: "denyRule \<in> set denyRules"
  from e have "fst e \<in> set (map fst (outcomes (snd (runRules h c copyRules denyRules initial_state))))"
    by simp
  then have "fst e \<in> set (resolutionOrder h c copyRules denyRules)"
    by (simp only: outcomes_runRules_initial)
  then show "\<not> minimatch h (fst e) denyRule"
    using d by (rule resolutionOrder_not_denied)
qed

theorem exclusion_exhaustive_witness:
  "applyDenyRules demo_host [''**/*.test.*'', ''*.md''] [''src/x.test.ts'', ''src/ok.ts''] = [''src/ok.ts'']
   \<and> set [''*.md'', ''**/*.test.*''] = set [''**/*.test.*'', ''*.md'']
   \<and> runRules demo_host (demo_options False None) [''src/*''] [''*.md'', ''**/*.test.*''] initial_state
       = runRules demo_host (demo_options False None) [''src/*''] [''**/*.test.*'', ''*.md''] initial_state
   \<and> (''src/ok.ts'', Copied) \<in> set (outcomes (snd (runRules demo_host (demo_options False None) [''src/*''] [''**/*.test.*'', ''*.md''] initial_state)))
   \<and> \<not> minimatch demo_host ''src/ok.ts'' ''**/*.test.*''
   \<and> minimatch demo_host ''src/x.test.ts'' ''**/*.test.*''
   \<and> ''src/x.test.ts'' \<notin> fst ` set (outcomes (snd (runRules demo_host (demo_options False None) [''src/*''] [''**/*.test.*'', ''*.md''] initial_state)))"
proof -
  let ?deny = "[''**/*.test.*'', ''*.md'']"
  let ?deny' = "[''*.md'', ''**/*.test.*'']"
  let ?final = "snd (runRules demo_host (demo_options False None) [''src/*''] ?deny initial_state)"
  note inst = exclusion_exhaustive [of demo_host ?deny "[''src/x.test.ts'', ''src/ok.ts'']" ?deny'
      "demo_options False None" "[''src/*'']" initial_state]
  have seteq: "set ?deny' = set ?deny" by auto
  have a: "applyDenyRules demo_host ?deny [''src/x.test.ts'', ''src/ok.ts''] = [''src/ok.ts'']"
    using inst [THEN conjunct1] by (simp add: demo_host_def)
  have b: "runRules demo_host (demo_options False None) [''src/*''] ?deny' initial_state
       = runRules demo_host (demo_options False None) [''src/*''] ?deny initial_state"
    using inst [THEN conjunct2, THEN conjunct1] seteq by (rule mp)
  have m: "minimatch demo_host ''src/x.test.ts'' ''**/*.test.*''"
    by (simp add: demo_host_def)
  have n: "\<forall>e \<in> set (outcomes ?final). \<forall>denyRule \<in> set ?deny. \<not> minimatch demo_host (fst e) denyRule"
    by (rule inst [THEN conjunct2, THEN conjunct2])
  have d: "''src/x.test.ts'' \<notin> fst ` set (outcomes ?final)"
  proof
    assume "''src/x.test.ts'' \<in> fst ` set (outcomes ?final)"
    then obtain e where e: "e \<in> set (outcomes ?final)" "fst e = ''src/x.test.ts''" by auto
    from n e(1) have "\<not> minimatch demo_host (fst e) ''**/*.test.*''" by simp
    with m e(2) show False by simp
  qed
  have e: "(''src/ok.ts'', Copied) \<in> set (outcomes ?final)"
    by (simp add: demo_simps)
  have f: "\<not> minimatch demo_host ''src/ok.ts'' ''**/*.test.*''"
  proof -
    from n e have "\<forall>denyRule \<in> set ?deny. \<not> minimatch demo_host (fst (''src/ok.ts'', Copied)) denyRule"
      by (rule bspec)
    then show ?thesis by simp
  qed
  from a seteq b e f m d show ?thesis by (intro conjI)
qed

lemma outcomes_runRules_nth:
  assumes "j < length (resolutionOrder h c copyRules denyRules)"
  shows "outcomes (snd (runRules h c copyRules denyRules initial_state)) ! j
         = (resolutionOrder h c copyRules denyRules ! j,
            fileOutcome h c
              (copiedFiles (processFiles h c initial_state (take j (resolutionOrder h c copyRules denyRules))))
              (resolutionOrder h c copyRules denyRules ! j))"
proof -
  have "outcomes initial_state = []" by (simp add: initial_state_def)
  then show ?thesis
    using outcomes_processFiles_nth [OF assms, of h c initial_state] by (simp add: runRules_snd)
qed








lemma copiedFiles_initial_bound:
  "set (copiedFiles (processFiles h c initial_state ps)) \<subseteq> targetFilePath h c ` set ps"
  using copiedFiles_processFiles_bound [of h c initial_state ps] by (simp add: initial_state_def)

lemma fileOutcome_Copied:
  "\<not> dryRun c \<Longrightarrow> passesSizeCheck h c f \<Longrightarrow> copyFileSync h f (targetFilePath h c f) \<Longrightarrow>
     targetFilePath h c f \<notin> set copied \<Longrightarrow> fileOutcome h c copied f = Copied"
  by (auto simp: fileOutcome_def passesSizeCheck_def split: option.splits)

lemma fileOutcome_SkippedDuplicate:
  "passesSizeCheck h c f \<Longrightarrow> targetFilePath h c f \<in> set copied \<Longrightarrow>
     fileOutcome h c copied f = SkippedDuplicate"
  by (auto simp: fileOutcome_def passesSizeCheck_def split: option.splits)

lemma targetFilePath_cong:
  "flattenedFileName (pathSeparator h) f = flattenedFileName (pathSeparator h) g \<Longrightarrow>
     targetFilePath h c f = targetFilePath h c g"
  by (simp add: targetFilePath_def)

text \<open>
  C4, as amended (first wins among the files that reach the duplicate check). In a
  real run, of two files with the same flat name, the earlier is copied and the later
  is skipped as a duplicate, provided that the earlier is the first of the run with
  its destination, its size is read and within the limit and its copy succeeds, and
  the size of the later is read and within the limit.
\<close>

theorem first_wins:
  assumes real: "\<not> dryRun c"
    and ps: "ps = resolutionOrder h c copyRules denyRules"
    and ij: "i < j" "j < length ps"
    and same: "flattenedFileName (pathSeparator h) (ps ! i) = flattenedFileName (pathSeparator h) (ps ! j)"
    and first: "\<forall>k < i. targetFilePath h c (ps ! k) \<noteq> targetFilePath h c (ps ! i)"
    and size_i: "passesSizeCheck h c (ps ! i)"
    and copy_i: "copyFileSync h (ps ! i) (targetFilePath h c (ps ! i))"
    and size_j: "passesSizeCheck h c (ps ! j)"
  shows "outcomes (snd (runRules h c copyRules denyRules initial_state)) ! i = (ps ! i, Copied)
         \<and> outcomes (snd (runRules h c copyRules denyRules initial_state)) ! j = (ps ! j, SkippedDuplicate)"
proof -
  let ?final = "snd (runRules h c copyRules denyRules initial_state)"
  let ?before = "\<lambda>n. copiedFiles (processFiles h c initial_state (take n ps))"
  have i: "i < length ps" using ij by simp
  have "targetFilePath h c (ps ! i) \<notin> targetFilePath h c ` set (take i ps)"
  proof
    assume "targetFilePath h c (ps ! i) \<in> targetFilePath h c ` set (take i ps)"
    then obtain g where g: "g \<in> set (take i ps)" "targetFilePath h c (ps ! i) = targetFilePath h c g"
      by auto
    from g(1) obtain k where "k < length (take i ps)" "take i ps ! k = g"
      by (auto simp: in_set_conv_nth)
    then have "k < i" "ps ! k = g" by simp_all
    from first \<open>k < i\<close> have "targetFilePath h c (ps ! k) \<noteq> targetFilePath h c (ps ! i)"
      by simp
    with g(2) \<open>ps ! k = g\<close> show False by simp
  qed
  then have fresh: "targetFilePath h c (ps ! i) \<notin> set (?before i)"
    using copiedFiles_initial_bound [of h c "take i ps"] by blast
  have out_i: "fileOutcome h c (?before i) (ps ! i) = Copied"
    using real size_i copy_i fresh by (rule fileOutcome_Copied)
  have at_i: "outcomes ?final ! i = (ps ! i, Copied)"
    using outcomes_runRules_nth [of i h c copyRules denyRules] i out_i by (simp add: ps)
  have step: "take (Suc i) ps = take i ps @ [ps ! i]"
    using i by (simp add: take_Suc_conv_app_nth)
  have "targetFilePath h c (ps ! i) \<in> set (?before (Suc i))"
    using out_i by (simp add: step processFiles_snoc copiedFiles_fileStep)
  moreover have "set (?before (Suc i)) \<subseteq> set (?before j)"
  proof -
    have "take (Suc i) (take j ps) = take (Suc i) ps"
      using ij by (simp add: min_def)
    then have "take (Suc i) ps @ drop (Suc i) (take j ps) = take j ps"
      using append_take_drop_id [of "Suc i" "take j ps"] by simp
    then have "processFiles h c initial_state (take j ps)
               = processFiles h c (processFiles h c initial_state (take (Suc i) ps)) (drop (Suc i) (take j ps))"
      using processFiles_append [of h c initial_state "take (Suc i) ps" "drop (Suc i) (take j ps)"]
      by simp
    then show ?thesis
      using copiedFiles_processFiles_mono
        [of "processFiles h c initial_state (take (Suc i) ps)" h c "drop (Suc i) (take j ps)"]
      by simp
  qed
  ultimately have "targetFilePath h c (ps ! i) \<in> set (?before j)" by blast
  then have "targetFilePath h c (ps ! j) \<in> set (?before j)"
    using targetFilePath_cong [OF same, of c] by simp
  with size_j have "fileOutcome h c (?before j) (ps ! j) = SkippedDuplicate"
    by (rule fileOutcome_SkippedDuplicate)
  then have at_j: "outcomes ?final ! j = (ps ! j, SkippedDuplicate)"
    using outcomes_runRules_nth [of j h c copyRules denyRules] ij by (simp add: ps)
  from at_i at_j show ?thesis by simp
qed

theorem first_wins_counterexample:
  "resolutionOrder demo_host (demo_options False (Some (Finite 1024))) [''**/*''] [] = [''a_/b'', ''a/_b'']
   \<and> flattenedFileName (pathSeparator demo_host) ''a_/b'' = flattenedFileName (pathSeparator demo_host) ''a/_b''
   \<and> outcomes (snd (runRules demo_host (demo_options False (Some (Finite 1024))) [''**/*''] [] initial_state))
       = [(''a_/b'', SkippedSize), (''a/_b'', Copied)]"
  by (simp add: resolutionOrder_def demo_simps)

lemma demo_resolutionOrder_dup:
  "resolutionOrder demo_host (demo_options False None) [''b.ts'', ''a.ts'', ''*.ts''] []
   = [''b.ts'', ''a.ts'', ''a.ts'', ''b.ts'']"
  by (simp add: resolutionOrder_def ruleFiles_def applyDenyRules_def demo_host_def demo_options_def)

theorem first_wins_witness:
  "\<not> dryRun (demo_options False None)
   \<and> resolutionOrder demo_host (demo_options False None) [''b.ts'', ''a.ts'', ''*.ts''] []
       = [''b.ts'', ''a.ts'', ''a.ts'', ''b.ts'']
   \<and> targetFilePath demo_host (demo_options False None) ''b.ts''
       \<noteq> targetFilePath demo_host (demo_options False None) ''a.ts''
   \<and> passesSizeCheck demo_host (demo_options False None) ''a.ts''
   \<and> copyFileSync demo_host ''a.ts'' (targetFilePath demo_host (demo_options False None) ''a.ts'')
   \<and> outcomes (snd (runRules demo_host (demo_options False None) [''b.ts'', ''a.ts'', ''*.ts''] []
         initial_state)) ! 1 = (''a.ts'', Copied)
   \<and> outcomes (snd (runRules demo_host (demo_options False None) [''b.ts'', ''a.ts'', ''*.ts''] []
         initial_state)) ! 2 = (''a.ts'', SkippedDuplicate)"
proof -
  let ?c = "demo_options False None"
  let ?ps = "[''b.ts'', ''a.ts'', ''a.ts'', ''b.ts'']"
  have real: "\<not> dryRun ?c" by (simp add: demo_options_def)
  have ps: "?ps = resolutionOrder demo_host ?c [''b.ts'', ''a.ts'', ''*.ts''] []"
    by (simp only: demo_resolutionOrder_dup)
  have ij: "(1::nat) < 2" "2 < length ?ps" by simp_all
  have same: "flattenedFileName (pathSeparator demo_host) (?ps ! 1)
              = flattenedFileName (pathSeparator demo_host) (?ps ! 2)"
    by simp
  have differ: "targetFilePath demo_host ?c ''b.ts'' \<noteq> targetFilePath demo_host ?c ''a.ts''"
    by (simp add: demo_simps)
  then have first: "\<forall>k < 1. targetFilePath demo_host ?c (?ps ! k) \<noteq> targetFilePath demo_host ?c (?ps ! 1)"
    by simp
  have size: "passesSizeCheck demo_host ?c ''a.ts''"
    by (simp add: passesSizeCheck_def demo_host_def demo_options_def exceedsLimit_def)
  have copy: "copyFileSync demo_host ''a.ts'' (targetFilePath demo_host ?c ''a.ts'')"
    by (simp add: demo_host_def)
  have size_i: "passesSizeCheck demo_host ?c (?ps ! 1)" using size by simp
  have size_j: "passesSizeCheck demo_host ?c (?ps ! 2)" using size by simp
  have copy_i: "copyFileSync demo_host (?ps ! 1) (targetFilePath demo_host ?c (?ps ! 1))"
    using copy by simp
  have "outcomes (snd (runRules demo_host ?c [''b.ts'', ''a.ts'', ''*.ts''] [] initial_state)) ! 1
          = (?ps ! 1, Copied)
        \<and> outcomes (snd (runRules demo_host ?c [''b.ts'', ''a.ts'', ''*.ts''] [] initial_state)) ! 2
          = (?ps ! 2, SkippedDuplicate)"
    using real ps ij same first size_i copy_i size_j by (rule first_wins)
  then show ?thesis
    using real differ size copy by (simp add: demo_resolutionOrder_dup)
qed

lemma targetFilePath_maxFileSize [simp]:
  "targetFilePath h (c\<lparr>maxFileSize := m\<rparr>) f = targetFilePath h c f"
  by (simp add: targetFilePath_def)

text \<open>
  C6, as amended (the size limit is strict, for a limit above zero). With a limit of
  \<open>L > 0\<close> bytes, a file of at most \<open>L\<close> bytes, so also one of exactly \<open>L\<close>, is
  processed as if no limit were set and its outcome is not skipped-size; a file of
  more than \<open>L\<close> bytes is added to \<open>skippedFiles\<close> with outcome skipped-size, and
  nothing else changes: no copy, no count, no bytes.
\<close>

theorem size_limit_boundary:
  assumes limit: "maxFileSize c = Some (Finite (real L))" and pos: "0 < L"
    and size: "statSync h sourceFile = Some fileSize"
  shows "(fileSize \<le> L \<longrightarrow>
            processFile h c sourceFile (n, s) = processFile h (c\<lparr>maxFileSize := None\<rparr>) sourceFile (n, s)
            \<and> last (outcomes (snd (processFile h c sourceFile (n, s)))) \<noteq> (sourceFile, SkippedSize))
         \<and> (L < fileSize \<longrightarrow>
            processFile h c sourceFile (n, s)
              = (n, s\<lparr>skippedFiles := skippedFiles s @ [sourceFile],
                      outcomes := outcomes s @ [(sourceFile, SkippedSize)]\<rparr>))"
proof (intro conjI impI)
  assume le: "fileSize \<le> L"
  then have no: "\<not> exceedsLimit (maxFileSize c) fileSize"
    by (simp add: exceedsLimit_def limit)
  then show "processFile h c sourceFile (n, s) = processFile h (c\<lparr>maxFileSize := None\<rparr>) sourceFile (n, s)"
    by (simp add: processFile_def size exceedsLimit_def)
  from no show "last (outcomes (snd (processFile h c sourceFile (n, s)))) \<noteq> (sourceFile, SkippedSize)"
    by (simp add: processFile_def size)
next
  assume "L < fileSize"
  then have "exceedsLimit (maxFileSize c) fileSize"
    using pos by (simp add: exceedsLimit_def limit)
  then show "processFile h c sourceFile (n, s)
              = (n, s\<lparr>skippedFiles := skippedFiles s @ [sourceFile],
                      outcomes := outcomes s @ [(sourceFile, SkippedSize)]\<rparr>)"
    by (simp add: processFile_def size)
qed

theorem size_limit_boundary_counterexample:
  "maxFileSize (demo_options False (Some (Finite 0))) = Some (Finite 0)
   \<and> statSync demo_host ''b.ts'' = Some 2000
   \<and> (0::nat) < 2000
   \<and> processFile demo_host (demo_options False (Some (Finite 0))) ''b.ts'' (0, initial_state)
       = (1, initial_state\<lparr>copiedFiles := [''../out/b.ts''], totalBytes := 2000,
              written := [(''b.ts'', ''../out/b.ts'')], outcomes := [(''b.ts'', Copied)]\<rparr>)"
  by (simp add: demo_simps)

theorem size_limit_boundary_witness:
  "maxFileSize (demo_options False (Some (Finite 1024))) = Some (Finite (real 1024))
   \<and> (0::nat) < 1024
   \<and> statSync demo_host ''exact.bin'' = Some 1024
   \<and> statSync demo_host ''over.bin'' = Some 1025
   \<and> processFile demo_host (demo_options False (Some (Finite 1024))) ''exact.bin'' (0, initial_state)
       = processFile demo_host ((demo_options False (Some (Finite 1024)))\<lparr>maxFileSize := None\<rparr>) ''exact.bin'' (0, initial_state)
   \<and> last (outcomes (snd (processFile demo_host (demo_options False (Some (Finite 1024))) ''exact.bin'' (0, initial_state))))
       \<noteq> (''exact.bin'', SkippedSize)
   \<and> processFile demo_host (demo_options False (Some (Finite 1024))) ''over.bin'' (0, initial_state)
       = (0, initial_state\<lparr>skippedFiles := skippedFiles initial_state @ [''over.bin''],
              outcomes := outcomes initial_state @ [(''over.bin'', SkippedSize)]\<rparr>)"
proof -
  let ?c = "demo_options False (Some (Finite 1024))"
  have limit: "maxFileSize ?c = Some (Finite (real 1024))"
    by (simp add: demo_options_def)
  have pos: "(0::nat) < 1024" by simp
  have exact: "statSync demo_host ''exact.bin'' = Some 1024" by (simp add: demo_host_def)
  have over: "statSync demo_host ''over.bin'' = Some 1025" by (simp add: demo_host_def)
  note at_exact = size_limit_boundary [OF limit pos exact, of 0 initial_state]
  note at_over = size_limit_boundary [OF limit pos over, of 0 initial_state]
  have a: "processFile demo_host ?c ''exact.bin'' (0, initial_state)
       = processFile demo_host (?c\<lparr>maxFileSize := None\<rparr>) ''exact.bin'' (0, initial_state)
     \<and> last (outcomes (snd (processFile demo_host ?c ''exact.bin'' (0, initial_state))))
       \<noteq> (''exact.bin'', SkippedSize)"
    using at_exact [THEN conjunct1] by (rule mp) simp
  have b: "processFile demo_host ?c ''over.bin'' (0, initial_state)
       = (0, initial_state\<lparr>skippedFiles := skippedFiles initial_state @ [''over.bin''],
              outcomes := outcomes initial_state @ [(''over.bin'', SkippedSize)]\<rparr>)"
    using at_over [THEN conjunct2] by (rule mp) simp
  from limit pos exact over a [THEN conjunct1] a [THEN conjunct2] b show ?thesis
    by (intro conjI)
qed

lemma processFile_zero_limit:
  "maxFileSize c = Some (Finite 0) \<Longrightarrow>
     processFile h c sourceFile acc = processFile h (c\<lparr>maxFileSize := None\<rparr>) sourceFile acc"
  by (cases "statSync h sourceFile") (simp_all add: processFile_def exceedsLimit_def Let_def)

lemma ruleFiles_maxFileSize: "ruleFiles h (c\<lparr>maxFileSize := m\<rparr>) denyRules pattern = ruleFiles h c denyRules pattern"
  by (simp add: ruleFiles_def)

lemma runRule_zero_limit:
  assumes "maxFileSize c = Some (Finite 0)"
  shows "runRule h c pattern denyRules s = runRule h (c\<lparr>maxFileSize := None\<rparr>) pattern denyRules s"
proof -
  have "(\<lambda>acc sourceFile. processFile h c sourceFile acc)
        = (\<lambda>acc sourceFile. processFile h (c\<lparr>maxFileSize := None\<rparr>) sourceFile acc)"
    using assms by (simp add: processFile_zero_limit)
  then show ?thesis unfolding runRule_def ruleFiles_maxFileSize by (simp only:)
qed

lemma fileOutcome_zero_limit:
  "maxFileSize c = Some (Finite 0) \<Longrightarrow> fileOutcome h c copied f \<noteq> SkippedSize"
  by (simp add: fileOutcome_def exceedsLimit_def split: option.splits)

lemma outcomes_processFiles_mem:
  "e \<in> set (outcomes (processFiles h c s ps)) \<Longrightarrow>
     e \<in> set (outcomes s) \<or> (\<exists>copied. snd e = fileOutcome h c copied (fst e))"
proof (induction ps arbitrary: e rule: rev_induct)
  case Nil
  then show ?case by (simp add: processFiles_Nil)
next
  case (snoc f ps)
  from snoc.prems have "e \<in> set (outcomes (processFiles h c s ps))
      \<or> e = (f, fileOutcome h c (copiedFiles (processFiles h c s ps)) f)"
    by (auto simp: processFiles_snoc outcomes_fileStep)
  then show ?case
  proof
    assume "e \<in> set (outcomes (processFiles h c s ps))"
    then show ?thesis by (rule snoc.IH)
  next
    assume "e = (f, fileOutcome h c (copiedFiles (processFiles h c s ps)) f)"
    then have "snd e = fileOutcome h c (copiedFiles (processFiles h c s ps)) (fst e)" by simp
    then show ?thesis by blast
  qed
qed

text \<open>
  C10 (a limit of 0 bytes is no limit). With \<open>maxFileSize = 0\<close> the run is the run
  with no limit at all, and no file has outcome skipped-size.
\<close>

theorem zero_limit_disables:
  assumes "maxFileSize c = Some (Finite 0)"
  shows "runRules h c copyRules denyRules s
           = runRules h (c\<lparr>maxFileSize := None\<rparr>) copyRules denyRules s
         \<and> (\<forall>e \<in> set (outcomes (snd (runRules h c copyRules denyRules initial_state))).
               snd e \<noteq> SkippedSize)"
proof
  have "\<And>pattern s. runRule h c pattern denyRules s
          = runRule h (c\<lparr>maxFileSize := None\<rparr>) pattern denyRules s"
    using assms by (rule runRule_zero_limit)
  then show "runRules h c copyRules denyRules s
           = runRules h (c\<lparr>maxFileSize := None\<rparr>) copyRules denyRules s"
    by (simp add: runRules_def)
next
  show "\<forall>e \<in> set (outcomes (snd (runRules h c copyRules denyRules initial_state))).
               snd e \<noteq> SkippedSize"
  proof
    fix e
    assume "e \<in> set (outcomes (snd (runRules h c copyRules denyRules initial_state)))"
    then have "e \<in> set (outcomes (processFiles h c initial_state (resolutionOrder h c copyRules denyRules)))"
      by (simp add: runRules_snd)
    then have "e \<in> set (outcomes initial_state) \<or> (\<exists>copied. snd e = fileOutcome h c copied (fst e))"
      by (rule outcomes_processFiles_mem)
    then obtain copied where "snd e = fileOutcome h c copied (fst e)"
      by (auto simp: initial_state_def)
    then show "snd e \<noteq> SkippedSize"
      using fileOutcome_zero_limit [OF assms] by simp
  qed
qed

theorem zero_limit_disables_witness:
  "parseFileSize ''0B'' = Inr (Finite 0)
   \<and> maxFileSize (demo_options False (Some (Finite 0))) = Some (Finite 0)
   \<and> runRules demo_host (demo_options False (Some (Finite 0))) [''*.bin'', ''*.ts''] [] initial_state
       = runRules demo_host ((demo_options False (Some (Finite 0)))\<lparr>maxFileSize := None\<rparr>) [''*.bin'', ''*.ts''] []
           initial_state
   \<and> (''over.bin'', Copied)
       \<in> set (outcomes (snd (runRules demo_host (demo_options False (Some (Finite 0))) [''*.bin'', ''*.ts''] []
                              initial_state)))
   \<and> (''over.bin'', SkippedSize)
       \<notin> set (outcomes (snd (runRules demo_host (demo_options False (Some (Finite 0))) [''*.bin'', ''*.ts''] []
                              initial_state)))"
proof -
  let ?c = "demo_options False (Some (Finite 0))"
  let ?final = "snd (runRules demo_host ?c [''*.bin'', ''*.ts''] [] initial_state)"
  have zero: "maxFileSize ?c = Some (Finite 0)" by (simp add: demo_options_def)
  note inst = zero_limit_disables [OF zero, of demo_host "[''*.bin'', ''*.ts'']" "[]" initial_state]
  have a: "runRules demo_host ?c [''*.bin'', ''*.ts''] [] initial_state
       = runRules demo_host (?c\<lparr>maxFileSize := None\<rparr>) [''*.bin'', ''*.ts''] [] initial_state"
    by (rule inst [THEN conjunct1])
  have b: "(''over.bin'', Copied) \<in> set (outcomes ?final)"
    by (simp add: demo_simps)
  have c: "(''over.bin'', SkippedSize) \<notin> set (outcomes ?final)"
  proof
    assume "(''over.bin'', SkippedSize) \<in> set (outcomes ?final)"
    with inst [THEN conjunct2] have "snd (''over.bin'', SkippedSize) \<noteq> SkippedSize"
      by (rule bspec)
    then show False by simp
  qed
  have p: "parseFileSize ''0B'' = Inr (Finite 0)"
    by (simp add: parse_simps)
  from p zero a b c show ?thesis by (intro conjI)
qed

text \<open>
  A run is one loop over the resolution order. When no two files of the run share a
  destination and every copy succeeds, the dry run reports what the real run does.
\<close>

lemma foldl_processFile_shift:
  "foldl (\<lambda>acc f. processFile h c f acc) (n, s) files
   = (n + fst (foldl (\<lambda>acc f. processFile h c f acc) (0, s) files),
      snd (foldl (\<lambda>acc f. processFile h c f acc) (0, s) files))"
proof (induction files arbitrary: n s)
  case Nil
  show ?case by simp
next
  case (Cons f files)
  let ?s = "fileStep h c s f"
  let ?rest = "foldl (\<lambda>acc f. processFile h c f acc) (0, ?s) files"
  obtain k where b: "processFile h c f (0, s) = (k, ?s)"
    by (metis prod.collapse processFile_snd)
  have "fst (processFile h c f (n, s)) = n + fst (processFile h c f (0, s))"
    by (rule processFile_fst)
  then have "fst (processFile h c f (n, s)) = n + k"
    by (simp only: b fst_conv)
  moreover have "snd (processFile h c f (n, s)) = ?s"
    by (rule processFile_snd)
  ultimately have a: "processFile h c f (n, s) = (n + k, ?s)"
    by (simp add: prod_eq_iff)
  have "foldl (\<lambda>acc f. processFile h c f acc) (n + k, ?s) files = (n + k + fst ?rest, snd ?rest)"
    by (rule Cons.IH)
  moreover have "foldl (\<lambda>acc f. processFile h c f acc) (k, ?s) files = (k + fst ?rest, snd ?rest)"
    by (rule Cons.IH)
  ultimately show ?case by (simp add: a b)
qed

lemma runRule_foldl:
  "runRule h c pattern denyRules s
   = foldl (\<lambda>acc f. processFile h c f acc) (0, s) (ruleFiles h c denyRules pattern)"
  by (simp add: runRule_def Let_def)

lemma runRules_foldl_gen:
  "foldl (\<lambda>acc rule. let r = runRule h c rule denyRules (snd acc) in (fst acc + fst r, snd r))
     (n, s) copyRules
   = foldl (\<lambda>acc f. processFile h c f acc) (n, s) (concat (map (ruleFiles h c denyRules) copyRules))"
proof (induction copyRules arbitrary: n s)
  case Nil
  show ?case by simp
next
  case (Cons r rs)
  let ?step = "\<lambda>acc rule. let r = runRule h c rule denyRules (snd acc) in (fst acc + fst r, snd r)"
  let ?pf = "\<lambda>acc f. processFile h c f acc"
  have one: "(n + fst (runRule h c r denyRules s), snd (runRule h c r denyRules s))
             = foldl ?pf (n, s) (ruleFiles h c denyRules r)"
    using foldl_processFile_shift [of h c n s "ruleFiles h c denyRules r"]
    by (simp add: runRule_foldl)
  have "foldl ?step (n, s) (r # rs)
        = foldl ?step (n + fst (runRule h c r denyRules s), snd (runRule h c r denyRules s)) rs"
    by (simp add: Let_def)
  also have "\<dots> = foldl ?pf (n + fst (runRule h c r denyRules s), snd (runRule h c r denyRules s))
                     (concat (map (ruleFiles h c denyRules) rs))"
    by (rule Cons.IH)
  also have "\<dots> = foldl ?pf (foldl ?pf (n, s) (ruleFiles h c denyRules r))
                     (concat (map (ruleFiles h c denyRules) rs))"
    by (simp only: one)
  also have "\<dots> = foldl ?pf (n, s) (concat (map (ruleFiles h c denyRules) (r # rs)))"
    by simp
  finally show ?case .
qed

lemma runRules_foldl:
  "runRules h c copyRules denyRules s
   = foldl (\<lambda>acc f. processFile h c f acc) (0, s) (resolutionOrder h c copyRules denyRules)"
  by (simp add: runRules_def resolutionOrder_def runRules_foldl_gen)

lemma targetFilePath_dryRun [simp]:
  "targetFilePath h (c\<lparr>dryRun := d\<rparr>) f = targetFilePath h c f"
  by (simp add: targetFilePath_def)

lemma processFile_dryRunView:
  assumes "targetFilePath h c f \<notin> set (copiedFiles s)"
    and "copyFileSync h f (targetFilePath h c f)"
  shows "processFile h (c\<lparr>dryRun := True\<rparr>) f (dryRunView (n, s))
         = dryRunView (processFile h (c\<lparr>dryRun := False\<rparr>) f (n, s))"
  using assms
  by (cases "statSync h f") (simp_all add: processFile_def dryRunView_def asDryRun_def Let_def)

lemma foldl_processFile_dryRunView:
  assumes "distinct (map (targetFilePath h c) files)"
    and "\<forall>f \<in> set files. targetFilePath h c f \<notin> set (copiedFiles s)"
    and "\<forall>f \<in> set files. copyFileSync h f (targetFilePath h c f)"
  shows "foldl (\<lambda>acc f. processFile h (c\<lparr>dryRun := True\<rparr>) f acc) (dryRunView (n, s)) files
         = dryRunView (foldl (\<lambda>acc f. processFile h (c\<lparr>dryRun := False\<rparr>) f acc) (n, s) files)"
  using assms
proof (induction files arbitrary: n s)
  case Nil
  show ?case by simp
next
  case (Cons f files)
  let ?real = "processFile h (c\<lparr>dryRun := False\<rparr>) f (n, s)"
  have step: "processFile h (c\<lparr>dryRun := True\<rparr>) f (dryRunView (n, s)) = dryRunView ?real"
    using Cons.prems by (simp add: processFile_dryRunView)
  have copied: "set (copiedFiles (snd ?real)) \<subseteq> insert (targetFilePath h c f) (set (copiedFiles s))"
    by (cases "statSync h f") (auto simp: processFile_def Let_def)
  have fresh: "\<forall>g \<in> set files. targetFilePath h c g \<notin> set (copiedFiles (snd ?real))"
  proof
    fix g assume g: "g \<in> set files"
    from Cons.prems(1) have "targetFilePath h c f \<notin> targetFilePath h c ` set files"
      by simp
    with g have "targetFilePath h c g \<noteq> targetFilePath h c f"
      by (metis imageI)
    moreover have "targetFilePath h c g \<notin> set (copiedFiles s)"
      using Cons.prems(2) g by simp
    ultimately show "targetFilePath h c g \<notin> set (copiedFiles (snd ?real))"
      using copied by auto
  qed
  have "foldl (\<lambda>acc f. processFile h (c\<lparr>dryRun := True\<rparr>) f acc) (dryRunView (fst ?real, snd ?real)) files
        = dryRunView (foldl (\<lambda>acc f. processFile h (c\<lparr>dryRun := False\<rparr>) f acc) (fst ?real, snd ?real) files)"
    using Cons.prems fresh by (intro Cons.IH) simp_all
  then show ?case by (simp add: step)
qed

lemma dry_run_agrees_without_duplicates:
  assumes "distinct (map (targetFilePath h c) (resolutionOrder h c copyRules denyRules))"
    and "\<forall>f \<in> set (resolutionOrder h c copyRules denyRules). copyFileSync h f (targetFilePath h c f)"
  shows "runRules h (c\<lparr>dryRun := True\<rparr>) copyRules denyRules initial_state
         = dryRunView (runRules h (c\<lparr>dryRun := False\<rparr>) copyRules denyRules initial_state)"
proof -
  have ro: "resolutionOrder h (c\<lparr>dryRun := True\<rparr>) copyRules denyRules = resolutionOrder h c copyRules denyRules"
    "resolutionOrder h (c\<lparr>dryRun := False\<rparr>) copyRules denyRules = resolutionOrder h c copyRules denyRules"
    by (simp_all add: resolutionOrder_def ruleFiles_def [abs_def])
  have init: "dryRunView (0, initial_state) = (0, initial_state)"
    by (simp add: dryRunView_def initial_state_def)
  have "\<forall>f \<in> set (resolutionOrder h c copyRules denyRules).
          targetFilePath h c f \<notin> set (copiedFiles initial_state)"
    by (simp add: initial_state_def)
  then show ?thesis
    using foldl_processFile_dryRunView [OF assms(1) _ assms(2), of initial_state 0] init
    by (simp add: runRules_foldl ro)
qed


text \<open>
  C3 (a dry run classifies and counts as a real run does). The dry-run branch does
  not add the destination to \<open>copiedFiles\<close>, so a dry run finds no duplicate. With
  the two inclusion rules \<open>a.ts\<close> and \<open>*.ts\<close>, the real run copies \<open>a.ts\<close> once and
  skips it once (2 files, 2010 bytes, 1 skipped); the dry run reports it twice as
  would-copy (3 files, 2020 bytes, none skipped).
\<close>

theorem dry_run_misses_duplicates:
  "runRules demo_host (demo_options True None) [''a.ts'', ''*.ts''] [] initial_state
     = (3, initial_state\<lparr>totalBytes := 2020,
          outcomes := [(''a.ts'', WouldCopy), (''a.ts'', WouldCopy), (''b.ts'', WouldCopy)]\<rparr>)
   \<and> runRules demo_host (demo_options False None) [''a.ts'', ''*.ts''] [] initial_state
     = (2, initial_state\<lparr>copiedFiles := [''../out/a.ts'', ''../out/b.ts''],
          skippedFiles := [''a.ts''], totalBytes := 2010,
          written := [(''a.ts'', ''../out/a.ts''), (''b.ts'', ''../out/b.ts'')],
          outcomes := [(''a.ts'', Copied), (''a.ts'', SkippedDuplicate), (''b.ts'', Copied)]\<rparr>)"
  by (simp add: demo_simps)

section \<open>Properties of \<open>parseFileSize\<close>\<close>

lemma toUpperCase_char_letter:
  assumes "toUpperCase_char c \<in> {CHR ''B'', CHR ''K'', CHR ''M'', CHR ''G''}"
  shows "\<not> isDigit c \<and> c \<noteq> CHR ''.''"
proof (cases "map_of (zip ''abcdefghijklmnopqrstuvwxyz'' ''ABCDEFGHIJKLMNOPQRSTUVWXYZ'') c")
  case None
  then have "toUpperCase_char c = c" by (simp add: toUpperCase_char_def)
  with assms have "c \<in> {CHR ''B'', CHR ''K'', CHR ''M'', CHR ''G''}" by simp
  then show ?thesis by (auto simp: isDigit_def)
next
  case (Some upper)
  then have "(c, upper) \<in> set (zip ''abcdefghijklmnopqrstuvwxyz'' ''ABCDEFGHIJKLMNOPQRSTUVWXYZ'')"
    by (rule map_of_SomeD)
  then have "c \<in> set ''abcdefghijklmnopqrstuvwxyz''"
    by (rule set_zip_leftD)
  then show ?thesis by (auto simp: isDigit_def)
qed

lemma matchesUnit_head:
  assumes "matchesUnit u"
  shows "u \<noteq> [] \<and> \<not> isDigit (hd u) \<and> hd u \<noteq> CHR ''.''"
proof (cases u)
  case Nil
  with assms show ?thesis by (simp add: matchesUnit_def toUpperCase_def)
next
  case (Cons c cs)
  with assms have "toUpperCase_char c \<in> {CHR ''B'', CHR ''K'', CHR ''M'', CHR ''G''}"
    by (auto simp: matchesUnit_def toUpperCase_def)
  then show ?thesis using Cons toUpperCase_char_letter by simp
qed

lemma takeWhile_digits:
  assumes "\<forall>c \<in> set ds. isDigit c" and "rest = [] \<or> \<not> isDigit (hd rest)"
  shows "takeWhile isDigit (ds @ rest) = ds" and "dropWhile isDigit (ds @ rest) = rest"
proof -
  have t: "takeWhile isDigit rest = []" and d: "dropWhile isDigit rest = rest"
    using assms(2) by (cases rest; simp)+
  show "takeWhile isDigit (ds @ rest) = ds"
    using assms(1) t by (simp add: takeWhile_append2)
  show "dropWhile isDigit (ds @ rest) = rest"
    using assms(1) d by (simp add: dropWhile_append2)
qed

lemma matchSize_integer:
  assumes "digitString ip" and "matchesUnit u"
  shows "matchSize (ip @ u) = Some (ip, u)"
proof -
  from assms(2) have u: "u \<noteq> []" "\<not> isDigit (hd u)" "hd u \<noteq> CHR ''.''"
    using matchesUnit_head by simp_all
  from assms(1) have ip: "ip \<noteq> []" "\<forall>c \<in> set ip. isDigit c"
    by (simp_all add: digitString_def)
  have "takeWhile isDigit (ip @ u) = ip" "dropWhile isDigit (ip @ u) = u"
    using takeWhile_digits [of ip u] ip u by simp_all
  then show ?thesis using ip u assms(2) by (simp add: matchSize_def)
qed

lemma matchSize_decimal:
  assumes "digitString ip" and "digitString fp" and "matchesUnit u"
  shows "matchSize (ip @ ''.'' @ fp @ u) = Some (ip @ ''.'' @ fp, u)"
proof -
  from assms(3) have u: "u \<noteq> []" "\<not> isDigit (hd u)"
    using matchesUnit_head by simp_all
  from assms(1) have ip: "ip \<noteq> []" "\<forall>c \<in> set ip. isDigit c"
    by (simp_all add: digitString_def)
  from assms(2) have fp: "fp \<noteq> []" "\<forall>c \<in> set fp. isDigit c"
    by (simp_all add: digitString_def)
  have dot: "\<not> isDigit CHR ''.''" by (simp add: isDigit_def)
  have a: "takeWhile isDigit (ip @ ''.'' @ fp @ u) = ip" "dropWhile isDigit (ip @ ''.'' @ fp @ u) = ''.'' @ fp @ u"
    using takeWhile_digits [of ip "''.'' @ fp @ u"] ip dot by simp_all
  have b: "takeWhile isDigit (fp @ u) = fp" "dropWhile isDigit (fp @ u) = u"
    using takeWhile_digits [of fp u] fp u by simp_all
  show ?thesis using a b ip fp assms(3) by (simp add: matchSize_def)
qed

lemma matchSize_specSizeFormat:
  assumes "matchSize s = Some (n, u)"
  shows "specSizeFormat s"
proof -
  let ?ip = "takeWhile isDigit s" and ?rest = "dropWhile isDigit s"
  have s: "s = ?ip @ ?rest" by simp
  have ipd: "\<forall>c \<in> set ?ip. isDigit c" by (auto dest: set_takeWhileD)
  from assms have ne: "?ip \<noteq> []" by (auto simp: matchSize_def Let_def split: if_splits)
  then have ip: "digitString ?ip" using ipd by (simp add: digitString_def)
  show ?thesis
  proof (cases "?rest \<noteq> [] \<and> hd ?rest = CHR ''.'' \<and> takeWhile isDigit (tl ?rest) \<noteq> []")
    case True
    let ?fp = "takeWhile isDigit (tl ?rest)" and ?unit = "dropWhile isDigit (tl ?rest)"
    from assms True ne have unit: "matchesUnit ?unit"
      by (auto simp: matchSize_def Let_def split: if_splits)
    have fp: "digitString ?fp" using True by (auto simp: digitString_def dest: set_takeWhileD)
    have "?rest = ''.'' @ ?fp @ ?unit"
      using True by (cases ?rest) auto
    then have "s = ?ip @ ''.'' @ ?fp @ ?unit" using s by metis
    with ip fp unit show ?thesis unfolding specSizeFormat_def by blast
  next
    case False
    with assms ne have "matchesUnit ?rest"
      by (auto simp: matchSize_def Let_def split: if_splits)
    with ip s show ?thesis unfolding specSizeFormat_def by blast
  qed
qed


lemma parseFloat_integer:
  assumes "digitString ip"
  shows "parseFloat ip = numberValue (real (digitsValue ip))"
proof -
  from assms have ip: "ip \<noteq> []" "\<forall>c \<in> set ip. isDigit c"
    by (simp_all add: digitString_def)
  have t: "takeWhile isDigit ip = ip" and d: "dropWhile isDigit ip = []"
    using ip(2) by simp_all
  show ?thesis unfolding parseFloat_def Let_def t d using ip(1) by (simp add: digitsValue_def)
qed

lemma parseFloat_decimal:
  assumes "digitString ip" and "digitString fp"
  shows "parseFloat (ip @ ''.'' @ fp)
         = numberValue (real (digitsValue ip) + real (digitsValue fp) / 10 ^ length fp)"
proof -
  from assms(1) have ip: "ip \<noteq> []" "\<forall>c \<in> set ip. isDigit c"
    by (simp_all add: digitString_def)
  from assms(2) have fp: "fp \<noteq> []" "\<forall>c \<in> set fp. isDigit c"
    by (simp_all add: digitString_def)
  have dot: "\<not> isDigit CHR ''.''" by (simp add: isDigit_def)
  have a: "takeWhile isDigit (ip @ ''.'' @ fp) = ip" "dropWhile isDigit (ip @ ''.'' @ fp) = ''.'' @ fp"
    using takeWhile_digits [of ip "''.'' @ fp"] ip dot by simp_all
  have b: "takeWhile isDigit fp = fp" using fp(2) by simp
  show ?thesis unfolding parseFloat_def Let_def a by (simp add: b ip fp)
qed

lemma units_lookup:
  assumes "matchesUnit u"
  shows "map_of units (toUpperCase u) = Some (1024 ^ unitExponent u)"
  using assms by (auto simp: matchesUnit_def units_def unitExponent_def)

text \<open>
  C9, as amended (the size format and the value returned). A number, with or without
  decimals, followed by a unit is accepted, and the result is \<open>Math.floor\<close> of the
  product of two doubles: the double nearest to the number written, and \<open>1024 ^ n\<close>.
  Every string that is not of the format raises the error.
\<close>

theorem parseFileSize_format:
  "(digitString ip \<and> matchesUnit u \<longrightarrow>
      parseFileSize (ip @ u)
        = Inr (mathFloor (multiply (numberValue (real (digitsValue ip)))
                 (Finite (1024 ^ unitExponent u)))))
   \<and> (digitString ip \<and> digitString fp \<and> matchesUnit u \<longrightarrow>
      parseFileSize (ip @ ''.'' @ fp @ u)
        = Inr (mathFloor (multiply
                 (numberValue (real (digitsValue ip) + real (digitsValue fp) / 10 ^ length fp))
                 (Finite (1024 ^ unitExponent u)))))
   \<and> (\<not> specSizeFormat s \<longrightarrow> parseFileSize s = Inl (InvalidFileSizeFormat s))"
proof (intro conjI impI)
  assume a: "digitString ip \<and> matchesUnit u"
  then have "matchSize (ip @ u) = Some (ip, u)"
    by (simp add: matchSize_integer)
  then show "parseFileSize (ip @ u)
        = Inr (mathFloor (multiply (numberValue (real (digitsValue ip)))
                 (Finite (1024 ^ unitExponent u))))"
    using a by (simp add: parseFileSize_def parseFloat_integer units_lookup)
next
  assume a: "digitString ip \<and> digitString fp \<and> matchesUnit u"
  then have "matchSize (ip @ ''.'' @ fp @ u) = Some (ip @ ''.'' @ fp, u)"
    using matchSize_decimal [of ip fp u] by simp
  then show "parseFileSize (ip @ ''.'' @ fp @ u)
        = Inr (mathFloor (multiply
                 (numberValue (real (digitsValue ip) + real (digitsValue fp) / 10 ^ length fp))
                 (Finite (1024 ^ unitExponent u))))"
    using a parseFloat_decimal [of ip fp] by (simp add: parseFileSize_def units_lookup)
next
  assume n: "\<not> specSizeFormat s"
  have "matchSize s = None"
  proof (cases "matchSize s")
    case None
    then show ?thesis .
  next
    case (Some p)
    then have "matchSize s = Some (fst p, snd p)" by simp
    then have "specSizeFormat s" by (rule matchSize_specSizeFormat)
    with n show ?thesis by simp
  qed
  then show "parseFileSize s = Inl (InvalidFileSizeFormat s)"
    by (simp add: parseFileSize_def)
qed

theorem parseFileSize_format_counterexample:
  "parseFileSize ''9007199254740993B'' = Inr (Finite 9007199254740992)
   \<and> \<lfloor>(9007199254740993::real) * 1024 ^ 0\<rfloor> = 9007199254740993
   \<and> parseFileSize ''1.9999999999999999999B'' = Inr (Finite 2)
   \<and> \<lfloor>(19999999999999999999::real) / 10 ^ 19 * 1024 ^ 0\<rfloor> = 1"
  by (simp add: parse_simps)

theorem parseFileSize_format_witness:
  "digitString ''1'' \<and> digitString ''5'' \<and> matchesUnit ''kb''
   \<and> parseFileSize ''1kb'' = Inr (Finite 1024)
   \<and> parseFileSize ''1.5kb'' = Inr (Finite 1536)
   \<and> \<not> specSizeFormat ''1.kb''
   \<and> parseFileSize ''1.kb'' = Inl (InvalidFileSizeFormat ''1.kb'')"
proof -
  have d1: "digitString ''1''" and d5: "digitString ''5''"
    by (simp_all add: digitString_def isDigit_def)
  have u: "matchesUnit ''kb''"
    by (simp add: matchesUnit_def toUpperCase_def toUpperCase_char_def)
  have e: "unitExponent ''kb'' = 1"
    by (simp add: unitExponent_def toUpperCase_def toUpperCase_char_def)
  have v1: "mathFloor (multiply (numberValue (real (digitsValue ''1''))) (Finite (1024 ^ 1))) = Finite 1024"
    by (simp add: parse_simps)
  have v2: "mathFloor (multiply (numberValue (real (digitsValue ''1'') + real (digitsValue ''5'') / 10 ^ length ''5''))
              (Finite (1024 ^ 1))) = Finite 1536"
    by (simp add: parse_simps)
  have bad: "matchSize ''1.kb'' = None"
    by (simp add: matchSize_def isDigit_def matchesUnit_def toUpperCase_def toUpperCase_char_def)
  have nf: "\<not> specSizeFormat ''1.kb''"
  proof
    assume "specSizeFormat ''1.kb''"
    then obtain ip u where f: "digitString ip" "matchesUnit u"
      "''1.kb'' = ip @ u \<or> (\<exists>fp. digitString fp \<and> ''1.kb'' = ip @ ''.'' @ fp @ u)"
      unfolding specSizeFormat_def by blast
    from f(3) show False
    proof
      assume "''1.kb'' = ip @ u"
      then have "matchSize ''1.kb'' = Some (ip, u)"
        using matchSize_integer [OF f(1) f(2)] by simp
      with bad show False by simp
    next
      assume "\<exists>fp. digitString fp \<and> ''1.kb'' = ip @ ''.'' @ fp @ u"
      then obtain fp where fp: "digitString fp" "''1.kb'' = ip @ ''.'' @ fp @ u" by blast
      then have "matchSize ''1.kb'' = Some (ip @ ''.'' @ fp, u)"
        using matchSize_decimal [OF f(1) fp(1) f(2)] by simp
      with bad show False by simp
    qed
  qed
  note inst = parseFileSize_format [of "''1''" "''kb''" "''5''" "''1.kb''"]
  have a: "parseFileSize ''1kb'' = Inr (Finite 1024)"
    using inst [THEN conjunct1] d1 u e v1 by simp
  have b: "parseFileSize ''1.5kb'' = Inr (Finite 1536)"
    using inst [THEN conjunct2, THEN conjunct1] d1 d5 u e v2 by simp
  have c: "parseFileSize ''1.kb'' = Inl (InvalidFileSizeFormat ''1.kb'')"
    using inst [THEN conjunct2, THEN conjunct2] nf by (rule mp)
  from d1 d5 u a b nf c show ?thesis by (intro conjI)
qed

end
